theory Spec2Isabelle
  imports Main "HOL-Library.Word" "HOL-Library.Monad_Syntax"
begin

unbundle bit_operations_syntax

section \<open>The TWI peripheral as seen by the driver\<close>

text \<open>
  The driver of \<^verbatim>\<open>i2c.c\<close> talks to the two-wire interface of an ATmega328 through four
  8-bit registers. The registers are volatile: a store to the control register starts a
  bus operation, and the hardware raises the completion flag \<^verbatim>\<open>TWINT\<close> some time
  later. This section is the environment of the driver: the registers, the caller's data
  memory, the bus on which the hardware puts what the driver asks for, and the slave that
  answers.
\<close>

type_synonym u8 = "8 word"
type_synonym u16 = "16 word"

text \<open>What the hardware puts on the bus: one entry for each completed request.\<close>

datatype event = Start | Stop | WriteByte u8 | ReadByte bool

text \<open>
  The bus-level state machine of section 4.1 of the specification: after a start
  condition the next byte is the address byte, whose lowest bit selects the direction of
  the data phase.
\<close>

datatype bus_phase = Idle | AddressPhase | Transmit | Receive

text \<open>
  The answer of the peripheral to one bus operation: after how many polls of the control
  register the completion flag comes up (\<open>None\<close>: never), the status code it leaves in the
  status register (which tells an acknowledged byte from a refused one), and the byte
  that a read operation delivers.
\<close>

record response =
  latency :: "nat option"
  status :: u8
  rxbyte :: u8

record twi =
  twbr :: u8
  twsr :: u8
  twdr :: u8
  twcr :: u8
  mem :: "u16 \<Rightarrow> u8"
  bus :: "event list"
  phase :: bus_phase
  wait :: "nat option"
  slave :: "event list \<Rightarrow> response"

text \<open>
  Bit numbers of the TWI registers, as the device header of the AVR tool chain gives them
  for the ATmega328 (the header is not part of the repository).
\<close>

definition TWINT :: nat where "TWINT = 7"
definition TWEA :: nat where "TWEA = 6"
definition TWSTA :: nat where "TWSTA = 5"
definition TWSTO :: nat where "TWSTO = 4"
definition TWEN :: nat where "TWEN = 2"
definition TWPS1 :: nat where "TWPS1 = 1"
definition TWPS0 :: nat where "TWPS0 = 0"

text \<open>The command constants of \<^verbatim>\<open>i2c.h\<close>.\<close>

definition i2c_WriteCmd :: u8 where "i2c_WriteCmd = 0x00"
definition i2c_ReadCmd :: u8 where "i2c_ReadCmd = 0x01"
definition i2c_ackCmd :: u8 where "i2c_ackCmd = 0x01"
definition i2c_nackCmd :: u8 where "i2c_nackCmd = 0x00"

datatype reg = TWBR | TWSR | TWDR | TWCR

subsection \<open>Reaction of the hardware to register accesses\<close>

fun next_phase :: "bus_phase \<Rightarrow> event \<Rightarrow> bus_phase" where
  "next_phase p Start = AddressPhase"
| "next_phase p Stop = Idle"
| "next_phase p (WriteByte b) =
     (if p = AddressPhase then (if bit b 0 then Receive else Transmit) else p)"
| "next_phase p (ReadByte a) = p"

text \<open>
  The hardware starts an operation: the event goes on the bus and the slave's answer to
  the bus history decides when the completion flag will come up. After a stop condition
  the flag is never raised.
\<close>

definition begin_op :: "event \<Rightarrow> twi \<Rightarrow> twi" where
  "begin_op e s =
     s\<lparr>bus := bus s @ [e],
       phase := next_phase (phase s) e,
       wait := (if e = Stop then None else latency (slave s (bus s @ [e])))\<rparr>"

definition is_read :: "event \<Rightarrow> bool" where
  "is_read e = (case e of ReadByte a \<Rightarrow> True | _ \<Rightarrow> False)"

text \<open>
  The operation completes: the flag is raised, the status code is latched into the upper
  five bits of the status register, and a received byte is latched into the data
  register.
\<close>

definition complete :: "twi \<Rightarrow> twi" where
  "complete s =
     (let r = slave s (bus s) in
      s\<lparr>twsr := (status r AND 0xF8) OR (twsr s AND 0x03),
        twdr := (if bus s \<noteq> [] \<and> is_read (last (bus s)) then rxbyte r else twdr s),
        twcr := twcr s OR push_bit TWINT 1,
        wait := None\<rparr>)"

text \<open>One poll of the control register lets one unit of hardware time pass.\<close>

definition hw_tick :: "twi \<Rightarrow> twi" where
  "hw_tick s =
     (case wait s of
        None \<Rightarrow> s
      | Some k \<Rightarrow> if k = 0 then complete s else s\<lparr>wait := Some (k - 1)\<rparr>)"

text \<open>
  A store to the control register. Writing a one to \<^verbatim>\<open>TWINT\<close> clears the flag and,
  with the interface enabled, starts the operation that the other bits select: a stop
  (followed by a start when both are asked for), a start, or a data transfer whose
  direction is that of the current bus phase. Writing a zero to \<^verbatim>\<open>TWINT\<close> leaves
  the flag as it is and starts nothing.
\<close>

definition write_TWCR :: "u8 \<Rightarrow> twi \<Rightarrow> twi" where
  "write_TWCR v s =
     (if \<not> bit v TWINT
      then s\<lparr>twcr := (v AND NOT (push_bit TWINT 1)) OR (twcr s AND push_bit TWINT 1)\<rparr>
      else
        let s0 = s\<lparr>twcr := v AND NOT (push_bit TWINT 1), wait := None\<rparr> in
        if \<not> bit v TWEN then s0
        else if bit v TWSTO then
          (let s1 = begin_op Stop (s0\<lparr>twcr := twcr s0 AND NOT (push_bit TWSTO 1)\<rparr>)
           in if bit v TWSTA then begin_op Start s1 else s1)
        else if bit v TWSTA then begin_op Start s0
        else
          (case phase s of
             Idle \<Rightarrow> s0
           | AddressPhase \<Rightarrow> begin_op (WriteByte (twdr s)) s0
           | Transmit \<Rightarrow> begin_op (WriteByte (twdr s)) s0
           | Receive \<Rightarrow> begin_op (ReadByte (bit v TWEA)) s0))"

text \<open>
  Volatile register accesses. Only the prescaler bits of the status register can be
  written; its status bits belong to the hardware.
\<close>

fun reg_read :: "reg \<Rightarrow> twi \<Rightarrow> u8 \<times> twi" where
  "reg_read TWBR s = (twbr s, s)"
| "reg_read TWSR s = (twsr s, s)"
| "reg_read TWDR s = (twdr s, s)"
| "reg_read TWCR s = (let s' = hw_tick s in (twcr s', s'))"

fun reg_write :: "reg \<Rightarrow> u8 \<Rightarrow> twi \<Rightarrow> twi" where
  "reg_write TWBR v s = s\<lparr>twbr := v\<rparr>"
| "reg_write TWSR v s = s\<lparr>twsr := (twsr s AND 0xF8) OR (v AND 0x03)\<rparr>"
| "reg_write TWDR v s = s\<lparr>twdr := v\<rparr>"
| "reg_write TWCR v s = write_TWCR v s"

section \<open>The bit macros\<close>

text \<open>
  Modelled from the spec: the macros \<^verbatim>\<open>bitSet\<close>, \<^verbatim>\<open>bitClear\<close> and
  \<^verbatim>\<open>bitWaitHigh\<close> come from the header \<^verbatim>\<open>aKaReZa.h\<close>, which is not among the
  sources. Section 6 of the specification describes them as a single-bit set and clear
  on a register, and as a wait that polls until the named bit becomes 1, with no timeout
  and no escape. The wait may therefore never return: \<open>None\<close> is that case.
\<close>

definition bitSet :: "reg \<Rightarrow> nat \<Rightarrow> twi \<Rightarrow> twi" where
  "bitSet r b s = (case reg_read r s of (v, s') \<Rightarrow> reg_write r (v OR push_bit b 1) s')"

definition bitClear :: "reg \<Rightarrow> nat \<Rightarrow> twi \<Rightarrow> twi" where
  "bitClear r b s =
     (case reg_read r s of (v, s') \<Rightarrow> reg_write r (v AND NOT (push_bit b 1)) s')"

partial_function (option) bitWaitHigh :: "reg \<Rightarrow> nat \<Rightarrow> twi \<Rightarrow> twi option" where
  "bitWaitHigh r b s =
     (case reg_read r s of (v, s') \<Rightarrow> if bit v b then Some s' else bitWaitHigh r b s')"

declare bitWaitHigh.simps [code]

section \<open>The driver\<close>

definition i2c_Init :: "twi \<Rightarrow> twi" where
  "i2c_Init s =
     (let s1 = bitClear TWSR TWPS0 s;
          s2 = bitClear TWSR TWPS1 s1;
          s3 = reg_write TWBR 72 s2
      in bitSet TWCR TWEN s3)"

definition i2c_Start :: "twi \<Rightarrow> twi option" where
  "i2c_Start s =
     bitWaitHigh TWCR TWINT
       (reg_write TWCR (push_bit TWINT 1 OR push_bit TWEN 1 OR push_bit TWSTA 1) s)"

definition i2c_Stop :: "twi \<Rightarrow> twi" where
  "i2c_Stop s = reg_write TWCR (push_bit TWINT 1 OR push_bit TWEN 1 OR push_bit TWSTO 1) s"

definition i2c_Write :: "u8 \<Rightarrow> twi \<Rightarrow> twi option" where
  "i2c_Write Data s =
     bitWaitHigh TWCR TWINT
       (reg_write TWCR (push_bit TWINT 1 OR push_bit TWEN 1) (reg_write TWDR Data s))"

text \<open>
  \<^verbatim>\<open>i2c_Read\<close> takes a \<^verbatim>\<open>bool\<close>, which C shifts as the integer 0 or 1.
\<close>

definition i2c_Read :: "bool \<Rightarrow> twi \<Rightarrow> (u8 \<times> twi) option" where
  "i2c_Read ackNack s =
     (case bitWaitHigh TWCR TWINT
             (reg_write TWCR
                (push_bit TWINT 1 OR push_bit TWEA (of_bool ackNack) OR push_bit TWEN 1) s)
      of None \<Rightarrow> None
       | Some s' \<Rightarrow> Some (reg_read TWDR s'))"

text \<open>
  The address byte \<^verbatim>\<open>(_address << 1) | cmd\<close>: the operands are promoted to the
  16-bit \<^verbatim>\<open>int\<close> of the AVR, and the result is cut to the \<^verbatim>\<open>uint8_t\<close> parameter
  of \<^verbatim>\<open>i2c_Write\<close>.
\<close>

definition address_byte :: "u8 \<Rightarrow> u8 \<Rightarrow> u8" where
  "address_byte a cmd = ucast (push_bit 1 (ucast a :: u16) OR (ucast cmd :: u16))"

text \<open>
  The argument \<^verbatim>\<open>(_dataLength == 1) ? __i2c_nackCmd : __i2c_ackCmd\<close> of
  \<^verbatim>\<open>i2c_Read\<close>, converted to \<^verbatim>\<open>bool\<close>.
\<close>

definition ack_for :: "u16 \<Rightarrow> bool" where
  "ack_for n = ((if n = 1 then i2c_nackCmd else i2c_ackCmd) \<noteq> 0)"

text \<open>
  The loop \<^verbatim>\<open>while(_dataLength) { i2c_Write(*_Data++); _dataLength--; }\<close> with the
  pointer and the counter as 16-bit values.
\<close>

function write_loop :: "u16 \<Rightarrow> u16 \<Rightarrow> twi \<Rightarrow> twi option" where
  "write_loop p n s =
     (if n = 0 then Some s
      else case i2c_Write (mem s p) s of
             None \<Rightarrow> None
           | Some s' \<Rightarrow> write_loop (p + 1) (n - 1) s')"
  by pat_completeness auto
termination
  by (relation "measure (\<lambda>(p, n, s). unat n)") (auto simp: unat_minus_one unat_gt_0)

text \<open>
  The loop \<^verbatim>\<open>while(_dataLength) { *_Data++ = i2c_Read(...); _dataLength--; }\<close>.
\<close>

function read_loop :: "u16 \<Rightarrow> u16 \<Rightarrow> twi \<Rightarrow> twi option" where
  "read_loop p n s =
     (if n = 0 then Some s
      else case i2c_Read (ack_for n) s of
             None \<Rightarrow> None
           | Some (v, s') \<Rightarrow> read_loop (p + 1) (n - 1) (s'\<lparr>mem := (mem s')(p := v)\<rparr>))"
  by pat_completeness auto
termination
  by (relation "measure (\<lambda>(p, n, s). unat n)") (auto simp: unat_minus_one unat_gt_0)

definition i2c_writeAddress :: "u8 \<Rightarrow> u16 \<Rightarrow> u16 \<Rightarrow> twi \<Rightarrow> twi option" where
  "i2c_writeAddress address Data dataLength s =
     do {
       s1 \<leftarrow> i2c_Start s;
       s2 \<leftarrow> i2c_Write (address_byte address i2c_WriteCmd) s1;
       s3 \<leftarrow> write_loop Data dataLength s2;
       Some (i2c_Stop s3)
     }"

definition i2c_readAdress :: "u8 \<Rightarrow> u16 \<Rightarrow> u16 \<Rightarrow> twi \<Rightarrow> twi option" where
  "i2c_readAdress address Data dataLength s =
     do {
       s1 \<leftarrow> i2c_Start s;
       s2 \<leftarrow> i2c_Write (address_byte address i2c_ReadCmd) s1;
       s3 \<leftarrow> read_loop Data dataLength s2;
       Some (i2c_Stop s3)
     }"

definition i2c_readSequential ::
  "u8 \<Rightarrow> u16 \<Rightarrow> u16 \<Rightarrow> u16 \<Rightarrow> u16 \<Rightarrow> twi \<Rightarrow> twi option" where
  "i2c_readSequential address txData txDataLenght rxData rxDataLenght s =
     do {
       s1 \<leftarrow> i2c_Start s;
       s2 \<leftarrow> i2c_Write (address_byte address i2c_WriteCmd) s1;
       s3 \<leftarrow> write_loop txData txDataLenght s2;
       s4 \<leftarrow> i2c_Start s3;
       s5 \<leftarrow> i2c_Write (address_byte address i2c_ReadCmd) s4;
       s6 \<leftarrow> read_loop rxData rxDataLenght s5;
       Some (i2c_Stop s6)
     }"

section \<open>Notions used to state the properties\<close>

text \<open>
  The peripheral is responsive when it raises the completion flag after every operation,
  whatever the bus history. Section 5 of the specification makes this the contract of the
  blocking primitives; a peripheral that is not responsive hangs the driver.
\<close>

definition responsive :: "twi \<Rightarrow> bool" where
  "responsive s = (\<forall>h. latency (slave s h) \<noteq> None)"

text \<open>The caller's array view of memory: \<open>k\<close> bytes from the pointer \<open>p\<close> on.\<close>

definition buffer :: "(u16 \<Rightarrow> u8) \<Rightarrow> u16 \<Rightarrow> nat \<Rightarrow> u8 list" where
  "buffer m p k = map (\<lambda>i. m (p + of_nat i)) [0..<k]"

text \<open>The addresses of that view.\<close>

definition region :: "u16 \<Rightarrow> nat \<Rightarrow> u16 set" where
  "region p k = (\<lambda>i. p + of_nat i) ` {..<k}"

text \<open>The events that an operation added to the bus.\<close>

definition issued :: "twi \<Rightarrow> twi \<Rightarrow> event list" where
  "issued s s' = drop (length (bus s)) (bus s')"

text \<open>The acknowledge decisions of a read phase of \<open>k\<close> bytes, first byte first.\<close>

fun acks :: "nat \<Rightarrow> bool list" where
  "acks 0 = []"
| "acks (Suc k) = (k \<noteq> 0) # acks k"

text \<open>
  A frame: the events begin with a start condition, end with a stop condition, and hold
  \<open>k\<close> start conditions and one stop condition in all.
\<close>

definition framed :: "nat \<Rightarrow> event list \<Rightarrow> bool" where
  "framed k ev =
     (ev \<noteq> [] \<and> hd ev = Start \<and> last ev = Stop \<and>
      count_list ev Start = k \<and> count_list ev Stop = 1)"

text \<open>
  The configuration that \<^verbatim>\<open>i2c_Init\<close> sets up: the two prescaler bits, the rate
  divisor and the enable bit.
\<close>

definition config :: "twi \<Rightarrow> u8 \<times> u8 \<times> bool" where
  "config s = (twsr s AND 0x03, twbr s, bit (twcr s) TWEN)"

text \<open>
  Two states agree on everything but the status codes: the status register may differ,
  and the slaves may report different status codes, but they answer after the same time
  and with the same bytes.
\<close>

definition same_but_status :: "twi \<Rightarrow> twi \<Rightarrow> bool" where
  "same_but_status s t =
     (twbr t = twbr s \<and> twdr t = twdr s \<and> twcr t = twcr s \<and> mem t = mem s \<and>
      bus t = bus s \<and> phase t = phase s \<and> wait t = wait s \<and>
      (\<forall>h. latency (slave t h) = latency (slave s h) \<and>
           rxbyte (slave t h) = rxbyte (slave s h)))"

subsection \<open>A simulated slave\<close>

text \<open>
  A register-addressed peripheral for the scenarios of section 8 of the specification:
  the data byte written last selects a register, and a read phase delivers the bytes
  of that register in order (\<open>0xFF\<close>, the level of the released line, once they are
  used up). The slave answers every operation after two polls and reports the status
  code given to it.
\<close>

record slave_state =
  sel :: u8
  idx :: nat
  expect_address :: bool

fun slave_step :: "slave_state \<Rightarrow> event \<Rightarrow> slave_state" where
  "slave_step t Start = t\<lparr>expect_address := True\<rparr>"
| "slave_step t Stop = t\<lparr>expect_address := False\<rparr>"
| "slave_step t (WriteByte b) =
     (if expect_address t then t\<lparr>idx := 0, expect_address := False\<rparr>
      else t\<lparr>sel := b, idx := 0\<rparr>)"
| "slave_step t (ReadByte a) = t\<lparr>idx := Suc (idx t)\<rparr>"

definition sim_slave :: "(u8 \<Rightarrow> u8 list) \<Rightarrow> u8 \<Rightarrow> event list \<Rightarrow> response" where
  "sim_slave regs code h =
     (let t = foldl slave_step \<lparr>sel = 0, idx = 0, expect_address = False\<rparr> h;
          bytes = regs (sel t)
      in \<lparr>latency = Some 2,
          status = code,
          rxbyte = (if 0 < idx t \<and> idx t \<le> length bytes then bytes ! (idx t - 1) else 0xFF)\<rparr>)"

definition test_regs :: "u8 \<Rightarrow> u8 list" where
  "test_regs r = (if r = 0x10 then [0xAA, 0xBB] else [])"

text \<open>
  The test bench: the registers as they are after reset, the register-select byte
  \<open>0x10\<close> at address \<open>0x0100\<close> of the data memory, an idle bus and the simulated slave.
\<close>

definition bench :: "u8 \<Rightarrow> twi" where
  "bench code =
     \<lparr>twbr = 0, twsr = 0xF8, twdr = 0xFF, twcr = 0,
      mem = (\<lambda>x. if x = 0x0100 then 0x10 else 0),
      bus = [], phase = Idle, wait = None,
      slave = sim_slave test_regs code\<rparr>"

section \<open>The address byte and the control words\<close>

lemma address_byte_write: "address_byte a i2c_WriteCmd = push_bit 1 a"
  unfolding address_byte_def i2c_WriteCmd_def
  by (rule bit_word_eqI)
    (auto simp add: bit_ucast_iff bit_or_iff bit_push_bit_iff
      simp del: push_bit_Suc One_nat_def)

lemma address_byte_read: "address_byte a i2c_ReadCmd = push_bit 1 a OR 1"
  unfolding address_byte_def i2c_ReadCmd_def
  by (rule bit_word_eqI)
    (auto simp add: bit_ucast_iff bit_or_iff bit_push_bit_iff bit_1_iff
      simp del: push_bit_Suc One_nat_def)

lemma ack_for_iff: "ack_for n = (n \<noteq> 1)"
  by (simp add: ack_for_def i2c_nackCmd_def i2c_ackCmd_def)

section \<open>The polling loop\<close>

lemma bitWaitHigh_done:
  "\<not> bit (twcr s) TWINT \<Longrightarrow> wait s = Some k \<Longrightarrow>
   bitWaitHigh TWCR TWINT s = Some (complete s)"
proof (induction k arbitrary: s)
  case 0
  then show ?case
    apply (subst bitWaitHigh.simps)
    apply (simp add: hw_tick_def complete_def Let_def bit_simps TWINT_def)
    done
next
  case (Suc k)
  have c: "complete (s\<lparr>wait := Some k\<rparr>) = complete s"
    by (simp add: complete_def Let_def)
  from Suc.prems Suc.IH [of "s\<lparr>wait := Some k\<rparr>"] show ?case
    apply (subst bitWaitHigh.simps)
    apply (simp add: hw_tick_def c)
    done
qed

lemma bitWaitHigh_Some_wait:
  assumes "bitWaitHigh r b s = Some s'"
  shows "r = TWCR \<and> b = TWINT \<and> \<not> bit (twcr s) TWINT \<longrightarrow> wait s \<noteq> None"
proof (rule bitWaitHigh.raw_induct
    [where P = "\<lambda>r b s y. r = TWCR \<and> b = TWINT \<and> \<not> bit (twcr s) TWINT \<longrightarrow> wait s \<noteq> None",
      OF _ assms])
  fix f r b s y
  assume IH: "\<And>r b s y. f r b s = Some y \<Longrightarrow>
      r = TWCR \<and> b = TWINT \<and> \<not> bit (twcr s) TWINT \<longrightarrow> wait s \<noteq> None"
    and step: "(case reg_read r s of (v, s') \<Rightarrow> if bit v b then Some s' else f r b s') = Some y"
  show "r = TWCR \<and> b = TWINT \<and> \<not> bit (twcr s) TWINT \<longrightarrow> wait s \<noteq> None"
  proof (intro impI notI, elim conjE)
    assume a: "r = TWCR" "b = TWINT" "\<not> bit (twcr s) TWINT" and w: "wait s = None"
    then have t: "hw_tick s = s" by (simp add: hw_tick_def)
    from step a t have "f r b s = Some y" by simp
    from IH [OF this] a w show False by simp
  qed
qed

lemma bitWaitHigh_hang:
  "\<not> bit (twcr s) TWINT \<Longrightarrow> wait s = None \<Longrightarrow> bitWaitHigh TWCR TWINT s = None"
  using bitWaitHigh_Some_wait [of TWCR TWINT s]
  by (cases "bitWaitHigh TWCR TWINT s") auto

lemma bitWaitHigh_eq:
  "\<not> bit (twcr s) TWINT \<Longrightarrow>
   bitWaitHigh TWCR TWINT s = (if wait s = None then None else Some (complete s))"
  by (auto simp: bitWaitHigh_hang bitWaitHigh_done)

section \<open>The bus primitives\<close>

lemma i2c_Start_eq:
  "i2c_Start s =
    (if latency (slave s (bus s @ [Start])) = None then None
     else Some (complete (begin_op Start
        (s\<lparr>twcr := (push_bit TWINT 1 OR push_bit TWEN 1 OR push_bit TWSTA 1) AND NOT (push_bit TWINT 1),
           wait := None\<rparr>))))"
  unfolding i2c_Start_def
  apply (subst bitWaitHigh_eq)
   apply (simp add: write_TWCR_def begin_op_def Let_def bit_simps TWINT_def TWEN_def TWSTA_def TWSTO_def)
  apply (simp add: write_TWCR_def begin_op_def Let_def bit_simps TWINT_def TWEN_def TWSTA_def TWSTO_def)
  done

lemma i2c_Start_Some:
  "i2c_Start s = Some s' \<Longrightarrow>
   bus s' = bus s @ [Start] \<and> phase s' = AddressPhase \<and> mem s' = mem s \<and> slave s' = slave s"
  by (auto simp: i2c_Start_eq complete_def begin_op_def Let_def split: if_splits)

lemma i2c_Start_returns: "responsive s \<Longrightarrow> i2c_Start s \<noteq> None"
  by (simp add: i2c_Start_eq responsive_def)

text \<open>
  The hang of section 7 of the specification: when the completion flag never comes up,
  the start primitive does not return, and neither does a transaction.
\<close>

lemma i2c_Start_hangs: "latency (slave s (bus s @ [Start])) = None \<Longrightarrow> i2c_Start s = None"
  by (simp add: i2c_Start_eq)

lemma transactions_hang:
  assumes "latency (slave s (bus s @ [Start])) = None"
  shows "i2c_writeAddress a p n s = None" and "i2c_readAdress a p n s = None"
    and "i2c_readSequential a tx m rx k s = None"
  by (simp_all add: i2c_writeAddress_def i2c_readAdress_def i2c_readSequential_def
      i2c_Start_hangs [OF assms])

lemma i2c_Write_Some:
  "i2c_Write d s = Some s' \<Longrightarrow> phase s = AddressPhase \<or> phase s = Transmit \<Longrightarrow>
   bus s' = bus s @ [WriteByte d] \<and> phase s' = next_phase (phase s) (WriteByte d) \<and>
   mem s' = mem s \<and> slave s' = slave s"
  unfolding i2c_Write_def
  apply (subst (asm) bitWaitHigh_eq)
   apply (auto simp add: write_TWCR_def begin_op_def Let_def bit_simps TWINT_def TWEN_def TWSTA_def TWSTO_def complete_def split: if_splits)
  done

lemma i2c_Write_returns:
  "responsive s \<Longrightarrow> phase s = AddressPhase \<or> phase s = Transmit \<Longrightarrow> i2c_Write d s \<noteq> None"
  unfolding i2c_Write_def
  apply (subst bitWaitHigh_eq)
   apply (auto simp add: write_TWCR_def begin_op_def Let_def bit_simps TWINT_def TWEN_def TWSTA_def TWSTO_def responsive_def)
  done

lemma i2c_Read_Some:
  "i2c_Read ack s = Some (v, s') \<Longrightarrow> phase s = Receive \<Longrightarrow>
   bus s' = bus s @ [ReadByte ack] \<and> phase s' = Receive \<and>
   mem s' = mem s \<and> slave s' = slave s \<and> v = rxbyte (slave s (bus s @ [ReadByte ack]))"
  unfolding i2c_Read_def
  apply (subst (asm) bitWaitHigh_eq)
   apply (auto simp add: write_TWCR_def begin_op_def Let_def bit_simps TWINT_def TWEN_def TWEA_def TWSTA_def TWSTO_def complete_def is_read_def split: if_splits)
  done

lemma i2c_Read_returns:
  "responsive s \<Longrightarrow> phase s = Receive \<Longrightarrow> i2c_Read ack s \<noteq> None"
  unfolding i2c_Read_def
  apply (subst bitWaitHigh_eq)
   apply (auto simp add: write_TWCR_def begin_op_def Let_def bit_simps TWINT_def TWEN_def TWEA_def TWSTA_def TWSTO_def responsive_def)
  done

lemma i2c_Stop_obs:
  "bus (i2c_Stop s) = bus s @ [Stop] \<and> phase (i2c_Stop s) = Idle \<and>
   mem (i2c_Stop s) = mem s \<and> slave (i2c_Stop s) = slave s"
  by (simp add: i2c_Stop_def write_TWCR_def begin_op_def Let_def bit_simps TWINT_def TWEN_def TWSTA_def TWSTO_def)

section \<open>The two loops\<close>

lemma unat_Suc_pred: "n \<noteq> 0 \<Longrightarrow> unat (n :: u16) = Suc (unat (n - 1))"
  by (simp add: unat_minus_one unat_gt_0)

lemma buffer_Suc: "buffer m p (Suc k) = m p # buffer m (p + 1) k"
  by (simp add: buffer_def map_upt_Suc del: upt_Suc) (simp add: ac_simps)

lemma write_loop_Some:
  "write_loop p n s = Some s' \<Longrightarrow> phase s = Transmit \<Longrightarrow>
   bus s' = bus s @ map WriteByte (buffer (mem s) p (unat n)) \<and> phase s' = Transmit \<and>
   mem s' = mem s \<and> slave s' = slave s"
proof (induction p n s rule: write_loop.induct)
  case (1 p n s)
  show ?case
  proof (cases "n = 0")
    case True
    with "1.prems" show ?thesis by (simp add: buffer_def)
  next
    case False
    from False "1.prems"(1) obtain s1 where
      w: "i2c_Write (mem s p) s = Some s1" and l: "write_loop (p + 1) (n - 1) s1 = Some s'"
      by (auto split: option.splits)
    from i2c_Write_Some [OF w] "1.prems"(2) have
      s1: "bus s1 = bus s @ [WriteByte (mem s p)]" "phase s1 = Transmit"
        "mem s1 = mem s" "slave s1 = slave s"
      by simp_all
    from "1.IH" [OF False w l s1(2)] s1 show ?thesis
      by (simp add: unat_Suc_pred [OF False] buffer_Suc)
  qed
qed

lemma write_loop_returns:
  "responsive s \<Longrightarrow> phase s = Transmit \<Longrightarrow> write_loop p n s \<noteq> None"
proof (induction p n s rule: write_loop.induct)
  case (1 p n s)
  show ?case
  proof (cases "n = 0")
    case True
    then show ?thesis by simp
  next
    case False
    from i2c_Write_returns [OF "1.prems"(1), of "mem s p"] "1.prems"(2) obtain s1 where
      w: "i2c_Write (mem s p) s = Some s1" by auto
    from i2c_Write_Some [OF w] "1.prems" have
      s1: "phase s1 = Transmit" "responsive s1"
      by (simp_all add: responsive_def)
    from "1.IH" [OF False w s1(2) s1(1)] False w show ?thesis
      by simp
  qed
qed

lemma acks_Suc: "acks (Suc k) = replicate k True @ [False]"
  by (induction k) (simp_all add: replicate_append_same)

lemma region_Suc: "region p (Suc k) = insert p (region (p + 1) k)"
proof -
  have "{..<Suc k} = insert 0 (Suc ` {..<k})"
    by (simp add: lessThan_Suc_eq_insert_0)
  then show ?thesis
    by (simp add: region_def image_image ac_simps)
qed

lemma read_loop_Some:
  "read_loop p n s = Some s' \<Longrightarrow> phase s = Receive \<Longrightarrow>
   bus s' = bus s @ map ReadByte (acks (unat n)) \<and> phase s' = Receive \<and>
   slave s' = slave s \<and> (\<forall>x. x \<notin> region p (unat n) \<longrightarrow> mem s' x = mem s x)"
proof (induction p n s rule: read_loop.induct)
  case (1 p n s)
  show ?case
  proof (cases "n = 0")
    case True
    with "1.prems" show ?thesis by simp
  next
    case False
    from False "1.prems"(1) obtain v s1 where
      r: "i2c_Read (ack_for n) s = Some (v, s1)"
      and l: "read_loop (p + 1) (n - 1) (s1\<lparr>mem := (mem s1)(p := v)\<rparr>) = Some s'"
      by (auto split: option.splits)
    from i2c_Read_Some [OF r "1.prems"(2)] have
      s1: "bus s1 = bus s @ [ReadByte (ack_for n)]" "phase s1 = Receive"
        "mem s1 = mem s" "slave s1 = slave s"
      by simp_all
    have a: "ack_for n = (unat (n - 1) \<noteq> 0)"
      by (simp add: ack_for_iff unat_eq_0)
    from "1.IH" [OF False r refl l] s1 show ?thesis
      by (simp add: unat_Suc_pred [OF False] region_Suc a)
  qed
qed

lemma read_loop_returns:
  "responsive s \<Longrightarrow> phase s = Receive \<Longrightarrow> read_loop p n s \<noteq> None"
proof (induction p n s rule: read_loop.induct)
  case (1 p n s)
  show ?case
  proof (cases "n = 0")
    case True
    then show ?thesis by simp
  next
    case False
    from i2c_Read_returns [OF "1.prems", of "ack_for n"] obtain v s1 where
      r: "i2c_Read (ack_for n) s = Some (v, s1)" by auto
    from i2c_Read_Some [OF r "1.prems"(2)] "1.prems" have
      s1: "phase s1 = Receive" "responsive s1"
      by (simp_all add: responsive_def)
    from "1.IH" [OF False r refl] s1 False r show ?thesis
      by (simp add: responsive_def)
  qed
qed

section \<open>The transactions\<close>

lemma address_byte_write_bit0: "\<not> bit (address_byte a i2c_WriteCmd) 0"
  by (simp add: address_byte_write bit_0)

lemma address_byte_read_bit0: "bit (address_byte a i2c_ReadCmd) 0"
  by (simp add: address_byte_read bit_or_iff bit_1_iff del: bit_0)

lemma address_phase_Some:
  assumes st: "i2c_Start s = Some s1"
    and wr: "i2c_Write b s1 = Some s2"
  shows "bus s2 = bus s @ [Start, WriteByte b]"
    and "phase s2 = (if bit b 0 then Receive else Transmit)"
    and "mem s2 = mem s" and "slave s2 = slave s"
proof -
  from i2c_Start_Some [OF st] have
    s1: "bus s1 = bus s @ [Start]" "phase s1 = AddressPhase" "mem s1 = mem s" "slave s1 = slave s"
    by simp_all
  from i2c_Write_Some [OF wr] s1 show "bus s2 = bus s @ [Start, WriteByte b]"
    and "phase s2 = (if bit b 0 then Receive else Transmit)"
    and "mem s2 = mem s" and "slave s2 = slave s"
    by simp_all
qed

lemma address_phase_returns:
  assumes "responsive s"
  shows "\<exists>s1 s2. i2c_Start s = Some s1 \<and> i2c_Write b s1 = Some s2 \<and> responsive s2"
proof -
  from i2c_Start_returns [OF assms] obtain s1 where st: "i2c_Start s = Some s1" by auto
  from i2c_Start_Some [OF st] assms have s1: "phase s1 = AddressPhase" "responsive s1"
    by (simp_all add: responsive_def)
  from i2c_Write_returns [OF s1(2), of b] s1(1) obtain s2 where wr: "i2c_Write b s1 = Some s2"
    by auto
  from i2c_Write_Some [OF wr] s1 have "responsive s2" by (simp add: responsive_def)
  with st wr show ?thesis by blast
qed

lemma i2c_writeAddress_Some:
  assumes "i2c_writeAddress a p n s = Some s'"
  shows "bus s' = bus s @ Start # WriteByte (address_byte a i2c_WriteCmd) #
           map WriteByte (buffer (mem s) p (unat n)) @ [Stop]"
    and "mem s' = mem s" and "slave s' = slave s" and "phase s' = Idle"
proof -
  from assms obtain s1 s2 s3 where
    st: "i2c_Start s = Some s1"
    and wr: "i2c_Write (address_byte a i2c_WriteCmd) s1 = Some s2"
    and lp: "write_loop p n s2 = Some s3"
    and sp: "s' = i2c_Stop s3"
    by (auto simp: i2c_writeAddress_def bind_eq_Some_conv)
  note s2 = address_phase_Some [OF st wr]
  from s2(2) have ph: "phase s2 = Transmit" by (simp add: address_byte_write_bit0)
  from write_loop_Some [OF lp ph] s2 sp i2c_Stop_obs [of s3]
  show "bus s' = bus s @ Start # WriteByte (address_byte a i2c_WriteCmd) #
           map WriteByte (buffer (mem s) p (unat n)) @ [Stop]"
    and "mem s' = mem s" and "slave s' = slave s" and "phase s' = Idle"
    by simp_all
qed

lemma i2c_writeAddress_returns:
  assumes "responsive s"
  shows "i2c_writeAddress a p n s \<noteq> None"
proof -
  from address_phase_returns [OF assms, of "address_byte a i2c_WriteCmd"] obtain s1 s2 where
    st: "i2c_Start s = Some s1"
    and wr: "i2c_Write (address_byte a i2c_WriteCmd) s1 = Some s2"
    and r2: "responsive s2"
    by blast
  from address_phase_Some(2) [OF st wr] have ph: "phase s2 = Transmit"
    by (simp add: address_byte_write_bit0)
  from write_loop_returns [OF r2 ph, of p n] st wr show ?thesis
    by (auto simp: i2c_writeAddress_def)
qed

lemma i2c_readAdress_Some:
  assumes "i2c_readAdress a p n s = Some s'"
  shows "bus s' = bus s @ Start # WriteByte (address_byte a i2c_ReadCmd) #
           map ReadByte (acks (unat n)) @ [Stop]"
    and "\<forall>x. x \<notin> region p (unat n) \<longrightarrow> mem s' x = mem s x"
    and "slave s' = slave s" and "phase s' = Idle"
proof -
  from assms obtain s1 s2 s3 where
    st: "i2c_Start s = Some s1"
    and wr: "i2c_Write (address_byte a i2c_ReadCmd) s1 = Some s2"
    and lp: "read_loop p n s2 = Some s3"
    and sp: "s' = i2c_Stop s3"
    by (auto simp: i2c_readAdress_def bind_eq_Some_conv)
  note s2 = address_phase_Some [OF st wr]
  from s2(2) have ph: "phase s2 = Receive" by (simp add: address_byte_read_bit0)
  from read_loop_Some [OF lp ph] s2 sp i2c_Stop_obs [of s3]
  show "bus s' = bus s @ Start # WriteByte (address_byte a i2c_ReadCmd) #
           map ReadByte (acks (unat n)) @ [Stop]"
    and "\<forall>x. x \<notin> region p (unat n) \<longrightarrow> mem s' x = mem s x"
    and "slave s' = slave s" and "phase s' = Idle"
    by simp_all
qed

lemma i2c_readAdress_returns:
  assumes "responsive s"
  shows "i2c_readAdress a p n s \<noteq> None"
proof -
  from address_phase_returns [OF assms, of "address_byte a i2c_ReadCmd"] obtain s1 s2 where
    st: "i2c_Start s = Some s1"
    and wr: "i2c_Write (address_byte a i2c_ReadCmd) s1 = Some s2"
    and r2: "responsive s2"
    by blast
  from address_phase_Some(2) [OF st wr] have ph: "phase s2 = Receive"
    by (simp add: address_byte_read_bit0)
  from read_loop_returns [OF r2 ph, of p n] st wr show ?thesis
    by (auto simp: i2c_readAdress_def)
qed

lemma i2c_readSequential_Some:
  assumes "i2c_readSequential a tx m rx k s = Some s'"
  shows "bus s' = bus s @ Start # WriteByte (address_byte a i2c_WriteCmd) #
           map WriteByte (buffer (mem s) tx (unat m)) @
           Start # WriteByte (address_byte a i2c_ReadCmd) #
           map ReadByte (acks (unat k)) @ [Stop]"
    and "\<forall>x. x \<notin> region rx (unat k) \<longrightarrow> mem s' x = mem s x"
    and "slave s' = slave s" and "phase s' = Idle"
proof -
  from assms obtain s1 s2 s3 s4 s5 s6 where
    st: "i2c_Start s = Some s1"
    and wr: "i2c_Write (address_byte a i2c_WriteCmd) s1 = Some s2"
    and lp: "write_loop tx m s2 = Some s3"
    and st': "i2c_Start s3 = Some s4"
    and wr': "i2c_Write (address_byte a i2c_ReadCmd) s4 = Some s5"
    and lp': "read_loop rx k s5 = Some s6"
    and sp: "s' = i2c_Stop s6"
    by (auto simp: i2c_readSequential_def bind_eq_Some_conv)
  note s2 = address_phase_Some [OF st wr]
  from s2(2) have ph: "phase s2 = Transmit" by (simp add: address_byte_write_bit0)
  note s3 = write_loop_Some [OF lp ph]
  note s5 = address_phase_Some [OF st' wr']
  from s5(2) have ph': "phase s5 = Receive" by (simp add: address_byte_read_bit0)
  note s6 = read_loop_Some [OF lp' ph']
  from s2 s3 s5 s6 sp i2c_Stop_obs [of s6]
  show "bus s' = bus s @ Start # WriteByte (address_byte a i2c_WriteCmd) #
           map WriteByte (buffer (mem s) tx (unat m)) @
           Start # WriteByte (address_byte a i2c_ReadCmd) #
           map ReadByte (acks (unat k)) @ [Stop]"
    and "\<forall>x. x \<notin> region rx (unat k) \<longrightarrow> mem s' x = mem s x"
    and "slave s' = slave s" and "phase s' = Idle"
    by simp_all
qed

lemma i2c_readSequential_returns:
  assumes "responsive s"
  shows "i2c_readSequential a tx m rx k s \<noteq> None"
proof -
  from address_phase_returns [OF assms, of "address_byte a i2c_WriteCmd"] obtain s1 s2 where
    st: "i2c_Start s = Some s1"
    and wr: "i2c_Write (address_byte a i2c_WriteCmd) s1 = Some s2"
    and r2: "responsive s2"
    by blast
  from address_phase_Some(2) [OF st wr] have ph: "phase s2 = Transmit"
    by (simp add: address_byte_write_bit0)
  from write_loop_returns [OF r2 ph, of tx m] obtain s3 where
    lp: "write_loop tx m s2 = Some s3" by auto
  from write_loop_Some [OF lp ph] r2 have r3: "responsive s3" by (simp add: responsive_def)
  from address_phase_returns [OF r3, of "address_byte a i2c_ReadCmd"] obtain s4 s5 where
    st': "i2c_Start s3 = Some s4"
    and wr': "i2c_Write (address_byte a i2c_ReadCmd) s4 = Some s5"
    and r5: "responsive s5"
    by blast
  from address_phase_Some(2) [OF st' wr'] have ph': "phase s5 = Receive"
    by (simp add: address_byte_read_bit0)
  from read_loop_returns [OF r5 ph', of rx k] st wr lp st' wr' show ?thesis
    by (auto simp: i2c_readSequential_def)
qed

section \<open>The bytes that a read phase stores\<close>

lemma of_nat_Suc_neq_0: "Suc j < 65536 \<Longrightarrow> (1 + of_nat j :: u16) \<noteq> 0"
proof -
  assume a: "Suc j < 65536"
  have "(of_nat (Suc j) :: u16) \<noteq> 0"
    by (rule of_nat_neq_0) (use a in simp_all)
  then show ?thesis by simp
qed

lemma notin_region_succ: "k < 65536 \<Longrightarrow> p \<notin> region (p + 1) k"
proof
  assume k: "k < 65536" and "p \<in> region (p + 1) k"
  then obtain j where j: "j < k" and e: "p = p + 1 + of_nat j"
    by (auto simp: region_def)
  from e have "(1 + of_nat j :: u16) = 0" by (simp add: add.assoc)
  with of_nat_Suc_neq_0 [of j] j k show False by simp
qed

lemma read_loop_data:
  "read_loop p n s = Some s' \<Longrightarrow> phase s = Receive \<Longrightarrow> i < unat n \<Longrightarrow>
   mem s' (p + of_nat i) =
     rxbyte (slave s (bus s @ map ReadByte (take (Suc i) (acks (unat n)))))"
proof (induction p n s arbitrary: i rule: read_loop.induct)
  case (1 p n s)
  from "1.prems"(3) have False: "n \<noteq> 0" by auto
  from False "1.prems"(1) obtain v s1 where
    r: "i2c_Read (ack_for n) s = Some (v, s1)"
    and l: "read_loop (p + 1) (n - 1) (s1\<lparr>mem := (mem s1)(p := v)\<rparr>) = Some s'"
    by (auto split: option.splits)
  from i2c_Read_Some [OF r "1.prems"(2)] have
    s1: "bus s1 = bus s @ [ReadByte (ack_for n)]" "phase s1 = Receive"
      "mem s1 = mem s" "slave s1 = slave s"
      "v = rxbyte (slave s (bus s @ [ReadByte (ack_for n)]))"
    by simp_all
  have a: "ack_for n = (unat (n - 1) \<noteq> 0)"
    by (simp add: ack_for_iff unat_eq_0)
  have u: "unat n = Suc (unat (n - 1))" by (rule unat_Suc_pred [OF False])
  have ph: "phase (s1\<lparr>mem := (mem s1)(p := v)\<rparr>) = Receive" using s1 by simp
  show ?case
  proof (cases i)
    case 0
    have "unat (n - 1) < 65536" using unsigned_less [of "n - 1", where ?'a = nat] by simp
    then have "p \<notin> region (p + 1) (unat (n - 1))" by (rule notin_region_succ)
    with read_loop_Some [OF l ph] have "mem s' p = v" by simp
    with 0 s1 a u show ?thesis by simp
  next
    case (Suc j)
    with "1.prems"(3) u have j: "j < unat (n - 1)" by simp
    from "1.IH" [OF False r refl l ph j] s1 a u Suc show ?thesis
      by (simp add: ac_simps)
  qed
qed

lemma i2c_readAdress_data:
  assumes "i2c_readAdress a p n s = Some s'" and "i < unat n"
  shows "mem s' (p + of_nat i) =
     rxbyte (slave s (bus s @ Start # WriteByte (address_byte a i2c_ReadCmd) #
        map ReadByte (take (Suc i) (acks (unat n)))))"
proof -
  from assms obtain s1 s2 s3 where
    st: "i2c_Start s = Some s1"
    and wr: "i2c_Write (address_byte a i2c_ReadCmd) s1 = Some s2"
    and lp: "read_loop p n s2 = Some s3"
    and sp: "s' = i2c_Stop s3"
    by (auto simp: i2c_readAdress_def bind_eq_Some_conv)
  note s2 = address_phase_Some [OF st wr]
  from s2(2) have ph: "phase s2 = Receive" by (simp add: address_byte_read_bit0)
  from read_loop_data [OF lp ph assms(2)] s2 sp i2c_Stop_obs [of s3]
  show ?thesis by simp
qed

lemma i2c_readSequential_data:
  assumes "i2c_readSequential a tx m rx k s = Some s'" and "i < unat k"
  shows "mem s' (rx + of_nat i) =
     rxbyte (slave s (bus s @ Start # WriteByte (address_byte a i2c_WriteCmd) #
           map WriteByte (buffer (mem s) tx (unat m)) @
           Start # WriteByte (address_byte a i2c_ReadCmd) #
           map ReadByte (take (Suc i) (acks (unat k)))))"
proof -
  from assms obtain s1 s2 s3 s4 s5 s6 where
    st: "i2c_Start s = Some s1"
    and wr: "i2c_Write (address_byte a i2c_WriteCmd) s1 = Some s2"
    and lp: "write_loop tx m s2 = Some s3"
    and st': "i2c_Start s3 = Some s4"
    and wr': "i2c_Write (address_byte a i2c_ReadCmd) s4 = Some s5"
    and lp': "read_loop rx k s5 = Some s6"
    and sp: "s' = i2c_Stop s6"
    by (auto simp: i2c_readSequential_def bind_eq_Some_conv)
  note s2 = address_phase_Some [OF st wr]
  from s2(2) have ph: "phase s2 = Transmit" by (simp add: address_byte_write_bit0)
  note s3 = write_loop_Some [OF lp ph]
  note s5 = address_phase_Some [OF st' wr']
  from s5(2) have ph': "phase s5 = Receive" by (simp add: address_byte_read_bit0)
  from read_loop_data [OF lp' ph' assms(2)] s2 s3 s5 sp i2c_Stop_obs [of s6]
  show ?thesis by simp
qed

section \<open>Arithmetic of the address byte\<close>

lemma take_bit_unat_u8: "take_bit 8 (unat (x :: u8)) = unat x" "take_bit 16 (unat (x :: u8)) = unat x"
proof -
  have "unat x < 2 ^ 8" using unsigned_less [of x, where ?'a = nat] by simp
  then show "take_bit 8 (unat x) = unat x" "take_bit 16 (unat x) = unat x"
    by (simp_all add: take_bit_nat_eq_self)
qed

lemma unat_address_byte:
  "unat (address_byte a cmd) = (unat a * 2) mod 256 OR unat cmd"
proof -
  have "unat (address_byte a cmd) = push_bit 1 (take_bit 7 (unat a)) OR unat cmd"
    by (simp add: address_byte_def unsigned_ucast_eq unsigned_or_eq unsigned_push_bit_eq
        take_bit_push_bit unsigned_take_bit_eq take_bit_unat_u8 del: push_bit_Suc One_nat_def)
  also have "push_bit 1 (take_bit 7 (unat a)) = (unat a * 2) mod 256"
  proof -
    have "unat a mod 128 * 2 = unat a * 2 mod 256"
      using mult_mod_right [of 2 "unat a" 128] by (simp add: mult.commute)
    then show ?thesis by (simp add: take_bit_eq_mod push_bit_eq_mult)
  qed
  finally show ?thesis .
qed

lemma unat_address_byte_7bit:
  assumes "a \<le> 127"
  shows "unat (address_byte a i2c_WriteCmd) = 2 * unat a"
    and "unat (address_byte a i2c_ReadCmd) = 2 * unat a + 1"
proof -
  from assms have "unat a \<le> 127" by (simp add: word_le_nat_alt)
  then have m: "(unat a * 2) mod 256 = 2 * unat a" by simp
  show "unat (address_byte a i2c_WriteCmd) = 2 * unat a"
    by (simp add: unat_address_byte m i2c_WriteCmd_def)
  show "unat (address_byte a i2c_ReadCmd) = 2 * unat a + 1"
    using or_one_eq [of "2 * unat a"] by (simp add: unat_address_byte m i2c_ReadCmd_def)
qed

lemma address_byte_mod_128: "address_byte (a mod 128) cmd = address_byte a cmd"
proof -
  have "a mod 128 = take_bit 7 a" by (simp add: take_bit_eq_mod)
  then show ?thesis
    unfolding address_byte_def
    by (intro bit_word_eqI)
      (auto simp add: bit_ucast_iff bit_or_iff bit_push_bit_iff bit_take_bit_iff
        simp del: push_bit_Suc One_nat_def)
qed

section \<open>Small facts for the statements\<close>

lemma responsive_bench: "responsive (bench code)"
  by (simp add: responsive_def bench_def sim_slave_def Let_def)

lemma acks_pos: "0 < k \<Longrightarrow> acks k = replicate (k - 1) True @ [False]"
  by (cases k) (simp_all add: acks_Suc del: acks.simps)

section \<open>Independence of the status codes\<close>

lemma sbs_wait_update:
  "same_but_status s t \<Longrightarrow> same_but_status (s\<lparr>wait := v\<rparr>) (t\<lparr>wait := v\<rparr>)"
  by (simp add: same_but_status_def)

lemma sbs_twdr_update:
  "same_but_status s t \<Longrightarrow> same_but_status (s\<lparr>twdr := v\<rparr>) (t\<lparr>twdr := v\<rparr>)"
  by (simp add: same_but_status_def)

lemma sbs_twbr_update:
  "same_but_status s t \<Longrightarrow> same_but_status (s\<lparr>twbr := v\<rparr>) (t\<lparr>twbr := v\<rparr>)"
  by (simp add: same_but_status_def)

lemma sbs_twsr_update:
  "same_but_status s t \<Longrightarrow> same_but_status (s\<lparr>twsr := v\<rparr>) (t\<lparr>twsr := w\<rparr>)"
  by (simp add: same_but_status_def)

lemma sbs_fields:
  assumes "same_but_status s t"
  shows "twcr t = twcr s" "twdr t = twdr s" "twbr t = twbr s" "mem t = mem s"
    "bus t = bus s" "phase t = phase s" "wait t = wait s"
  using assms by (simp_all add: same_but_status_def)

lemma sbs_write_TWCR:
  assumes "same_but_status s t"
  shows "same_but_status (write_TWCR v s) (write_TWCR v t)"
  using assms
  by (simp add: same_but_status_def write_TWCR_def begin_op_def Let_def
      split: bus_phase.splits)


lemma sbs_complete:
  "same_but_status s t \<Longrightarrow> same_but_status (complete s) (complete t)"
  by (simp add: same_but_status_def complete_def Let_def)

lemma sbs_hw_tick:
  "same_but_status s t \<Longrightarrow> same_but_status (hw_tick s) (hw_tick t)"
  by (auto simp add: hw_tick_def sbs_complete sbs_wait_update sbs_fields split: option.splits)

lemma twcr_write_clears_flag: "bit v TWINT \<Longrightarrow> \<not> bit (twcr (write_TWCR v s)) TWINT"
  by (simp add: write_TWCR_def begin_op_def Let_def bit_simps TWINT_def TWSTO_def
      split: bus_phase.splits)

lemma sbs_bitWaitHigh:
  assumes "same_but_status s t" and "\<not> bit (twcr s) TWINT"
  shows "rel_option same_but_status (bitWaitHigh TWCR TWINT s) (bitWaitHigh TWCR TWINT t)"
proof -
  from assms have "\<not> bit (twcr t) TWINT" by (simp add: sbs_fields)
  with assms show ?thesis
    by (simp add: bitWaitHigh_eq sbs_fields sbs_complete)
qed

lemma rel_option_map:
  "rel_option R x y \<Longrightarrow> (\<And>a b. R a b \<Longrightarrow> Q (f a) (g b)) \<Longrightarrow>
   rel_option Q (map_option f x) (map_option g y)"
  by (cases x; cases y; simp)

lemma sbs_start_transfer:
  assumes "same_but_status s t" and "bit v TWINT"
  shows "rel_option same_but_status
           (bitWaitHigh TWCR TWINT (reg_write TWCR v s))
           (bitWaitHigh TWCR TWINT (reg_write TWCR v t))"
  unfolding reg_write.simps
  by (rule sbs_bitWaitHigh [OF sbs_write_TWCR [OF assms(1)] twcr_write_clears_flag [OF assms(2)]])

lemma sbs_i2c_Start:
  assumes "same_but_status s t"
  shows "rel_option same_but_status (i2c_Start s) (i2c_Start t)"
  unfolding i2c_Start_def
  by (rule sbs_start_transfer [OF assms]) (simp add: bit_simps TWINT_def)

lemma sbs_i2c_Stop:
  "same_but_status s t \<Longrightarrow> same_but_status (i2c_Stop s) (i2c_Stop t)"
  by (simp add: i2c_Stop_def sbs_write_TWCR)

lemma sbs_i2c_Write:
  assumes "same_but_status s t"
  shows "rel_option same_but_status (i2c_Write d s) (i2c_Write d t)"
proof -
  from assms have "same_but_status (reg_write TWDR d s) (reg_write TWDR d t)"
    by (simp add: sbs_twdr_update)
  then show ?thesis
    unfolding i2c_Write_def
    by (rule sbs_start_transfer) (simp add: bit_simps TWINT_def)
qed

lemma i2c_Read_map:
  "i2c_Read ack s =
     map_option (reg_read TWDR)
       (bitWaitHigh TWCR TWINT
          (reg_write TWCR
             (push_bit TWINT 1 OR push_bit TWEA (of_bool ack) OR push_bit TWEN 1) s))"
  unfolding i2c_Read_def by (simp split: option.splits)

lemma sbs_i2c_Read:
  assumes "same_but_status s t"
  shows "rel_option (rel_prod (=) same_but_status) (i2c_Read ack s) (i2c_Read ack t)"
proof -
  have "bit (push_bit TWINT 1 OR push_bit TWEA (of_bool ack) OR push_bit TWEN 1 :: u8) TWINT"
    by (simp add: bit_simps TWINT_def)
  from sbs_start_transfer [OF assms this] show ?thesis
    unfolding i2c_Read_map
    by (rule rel_option_map) (simp add: sbs_fields)
qed

lemma sbs_bitClear_TWSR:
  "same_but_status s t \<Longrightarrow> same_but_status (bitClear TWSR b s) (bitClear TWSR b t)"
  by (simp add: bitClear_def sbs_twsr_update)

lemma sbs_bitSet_TWCR:
  assumes "same_but_status s t"
  shows "same_but_status (bitSet TWCR b s) (bitSet TWCR b t)"
proof -
  have e: "bitSet TWCR b s = write_TWCR (twcr (hw_tick s) OR push_bit b 1) (hw_tick s)" for s
    by (simp only: bitSet_def reg_read.simps reg_write.simps Let_def prod.case)
  note h = sbs_hw_tick [OF assms]
  show ?thesis
    unfolding e sbs_fields(1) [OF h] by (rule sbs_write_TWCR [OF h])
qed

lemma sbs_i2c_Init:
  assumes "same_but_status s t"
  shows "same_but_status (i2c_Init s) (i2c_Init t)"
proof -
  note 1 = sbs_bitClear_TWSR [OF assms, of TWPS0]
  note 2 = sbs_bitClear_TWSR [OF 1, of TWPS1]
  from 2 have 3: "same_but_status (reg_write TWBR 72 (bitClear TWSR TWPS1 (bitClear TWSR TWPS0 s)))
     (reg_write TWBR 72 (bitClear TWSR TWPS1 (bitClear TWSR TWPS0 t)))"
    by (simp add: sbs_twbr_update)
  show ?thesis
    unfolding i2c_Init_def Let_def by (rule sbs_bitSet_TWCR [OF 3])
qed


lemma rel_option_bind:
  "rel_option R x y \<Longrightarrow> (\<And>a b. R a b \<Longrightarrow> rel_option Q (f a) (g b)) \<Longrightarrow>
   rel_option Q (Option.bind x f) (Option.bind y g)"
  by (cases x; cases y; simp)

lemma sbs_write_loop:
  "same_but_status s t \<Longrightarrow>
   rel_option same_but_status (write_loop p n s) (write_loop p n t)"
proof (induction p n s arbitrary: t rule: write_loop.induct)
  case (1 p n s)
  show ?case
  proof (cases "n = 0")
    case True
    with "1.prems" show ?thesis by simp
  next
    case False
    from "1.prems" have m: "mem t p = mem s p" by (simp add: sbs_fields)
    from sbs_i2c_Write [OF "1.prems", of "mem s p"] show ?thesis
    proof (cases rule: option.rel_cases)
      case None
      with False m show ?thesis by simp
    next
      case (Some s1 t1)
      from "1.IH" [OF False Some(1) Some(3)] Some False m show ?thesis by simp
    qed
  qed
qed

lemma sbs_read_loop:
  "same_but_status s t \<Longrightarrow>
   rel_option same_but_status (read_loop p n s) (read_loop p n t)"
proof (induction p n s arbitrary: t rule: read_loop.induct)
  case (1 p n s)
  show ?case
  proof (cases "n = 0")
    case True
    with "1.prems" show ?thesis by simp
  next
    case False
    from sbs_i2c_Read [OF "1.prems", of "ack_for n"] show ?thesis
    proof (cases rule: option.rel_cases)
      case None
      with False show ?thesis by simp
    next
      case (Some x y)
      obtain v s1 where x: "x = (v, s1)" by (cases x)
      obtain w t1 where y: "y = (w, t1)" by (cases y)
      from Some(3) x y have vw: "w = v" and r: "same_but_status s1 t1" by simp_all
      from r have r': "same_but_status (s1\<lparr>mem := (mem s1)(p := v)\<rparr>)
          (t1\<lparr>mem := (mem t1)(p := v)\<rparr>)"
        by (simp add: same_but_status_def)
      from "1.IH" [OF False Some(1) x [symmetric] r'] Some x y vw False show ?thesis by simp
    qed
  qed
qed

lemma sbs_i2c_writeAddress:
  assumes "same_but_status s t"
  shows "rel_option same_but_status (i2c_writeAddress a p n s) (i2c_writeAddress a p n t)"
  unfolding i2c_writeAddress_def
  by (intro rel_option_bind [OF sbs_i2c_Start [OF assms]] rel_option_bind [OF sbs_i2c_Write]
      rel_option_bind [OF sbs_write_loop])
    (simp_all add: sbs_i2c_Stop)

lemma sbs_i2c_readAdress:
  assumes "same_but_status s t"
  shows "rel_option same_but_status (i2c_readAdress a p n s) (i2c_readAdress a p n t)"
  unfolding i2c_readAdress_def
  by (intro rel_option_bind [OF sbs_i2c_Start [OF assms]] rel_option_bind [OF sbs_i2c_Write]
      rel_option_bind [OF sbs_read_loop])
    (simp_all add: sbs_i2c_Stop)

lemma sbs_i2c_readSequential:
  assumes "same_but_status s t"
  shows "rel_option same_but_status
     (i2c_readSequential a tx m rx k s) (i2c_readSequential a tx m rx k t)"
  unfolding i2c_readSequential_def
  by (intro rel_option_bind [OF sbs_i2c_Start] rel_option_bind [OF sbs_i2c_Write]
      rel_option_bind [OF sbs_write_loop] rel_option_bind [OF sbs_read_loop])
    (simp_all add: sbs_i2c_Stop assms)

section \<open>The claims\<close>

subsection \<open>C1: the frame of a burst read\<close>

text \<open>
  Claim C1. For every 7-bit address and every count of at least one, \<^verbatim>\<open>i2c_readAdress\<close>
  returns, and what it put on the bus is one start condition, the address byte
  \<open>2 * a + 1\<close>, then as many reads as the count says, acknowledged all but the last,
  which is refused, and one stop condition. With a count of one the only read is the
  refused one.
\<close>

theorem ReadBurst_frame:
  assumes "responsive s" and "a \<le> 127" and "c \<noteq> 0"
  shows "\<exists>s'. i2c_readAdress a p c s = Some s' \<and>
           issued s s' =
             Start # WriteByte (address_byte a i2c_ReadCmd) #
             replicate (unat c - 1) (ReadByte True) @ [ReadByte False, Stop] \<and>
           unat (address_byte a i2c_ReadCmd) = 2 * unat a + 1"
proof -
  from i2c_readAdress_returns [OF assms(1), of a p c] obtain s' where
    e: "i2c_readAdress a p c s = Some s'" by auto
  from assms(3) have "0 < unat c" by (simp add: unat_gt_0)
  then have "map ReadByte (acks (unat c)) = replicate (unat c - 1) (ReadByte True) @ [ReadByte False]"
    by (simp add: acks_pos)
  with i2c_readAdress_Some(1) [OF e] have
    "issued s s' = Start # WriteByte (address_byte a i2c_ReadCmd) #
             replicate (unat c - 1) (ReadByte True) @ [ReadByte False, Stop]"
    by (simp add: issued_def)
  with e unat_address_byte_7bit(2) [OF assms(2)] show ?thesis by blast
qed

theorem ReadBurst_frame_witness:
  "responsive (bench 0x58) \<and> (0x50 :: u8) \<le> 127 \<and> (1 :: u16) \<noteq> 0 \<and>
   (\<exists>s'. i2c_readAdress 0x50 0x0200 1 (bench 0x58) = Some s' \<and>
      issued (bench 0x58) s' = [Start, WriteByte 0xA1, ReadByte False, Stop])"
  using ReadBurst_frame [of "bench 0x58" "0x50" 1 "0x0200"]
  by (simp add: responsive_bench address_byte_read)

subsection \<open>C2: the frame of a burst write\<close>

text \<open>
  Claim C2. For every address from 0 to 127 and every non-empty buffer,
  \<^verbatim>\<open>i2c_writeAddress\<close> returns, and what it put on the bus is one start condition, the
  address byte \<open>2 * a\<close>, then the bytes of the buffer in the order of the array, one write
  for each, and after all of them one stop condition.
\<close>

theorem WriteBurst_frame:
  assumes "responsive s" and "a \<le> 127" and "n \<noteq> 0"
  shows "\<exists>s'. i2c_writeAddress a p n s = Some s' \<and>
           issued s s' =
             Start # WriteByte (address_byte a i2c_WriteCmd) #
             map WriteByte (buffer (mem s) p (unat n)) @ [Stop] \<and>
           unat (address_byte a i2c_WriteCmd) = 2 * unat a \<and>
           length (buffer (mem s) p (unat n)) = unat n"
proof -
  from i2c_writeAddress_returns [OF assms(1), of a p n] obtain s' where
    e: "i2c_writeAddress a p n s = Some s'" by auto
  from i2c_writeAddress_Some(1) [OF e] have
    "issued s s' = Start # WriteByte (address_byte a i2c_WriteCmd) #
             map WriteByte (buffer (mem s) p (unat n)) @ [Stop]"
    by (simp add: issued_def)
  moreover have "length (buffer (mem s) p (unat n)) = unat n" by (simp add: buffer_def)
  ultimately show ?thesis using e unat_address_byte_7bit(1) [OF assms(2)] by blast
qed

lemma buffer_bench: "buffer (mem (bench code)) 0x00FF 3 = [0, 0x10, 0]"
  by (simp add: buffer_def bench_def upt_rec)

theorem WriteBurst_frame_witness:
  "responsive (bench 0x28) \<and> (0x50 :: u8) \<le> 127 \<and> (3 :: u16) \<noteq> 0 \<and>
   (\<exists>s'. i2c_writeAddress 0x50 0x00FF 3 (bench 0x28) = Some s' \<and>
      issued (bench 0x28) s' =
        [Start, WriteByte 0xA0, WriteByte 0, WriteByte 0x10, WriteByte 0, Stop])"
  using WriteBurst_frame [of "bench 0x28" "0x50" 3 "0x00FF"]
  by (simp add: responsive_bench address_byte_write buffer_bench)

subsection \<open>C3: write, repeated start, read\<close>

lemma count_list_WriteByte: "e = Start \<or> e = Stop \<Longrightarrow> count_list (map WriteByte xs) e = 0"
  by (induction xs) auto

lemma count_list_ReadByte: "e = Start \<or> e = Stop \<Longrightarrow> count_list (map ReadByte xs) e = 0"
  by (induction xs) auto





subsection \<open>C4: every transaction is bracketed\<close>

text \<open>
  Claim C4. Whenever one of the three transactions returns, what it put on the bus
  begins with a start condition, ends with a stop condition, and holds exactly one stop
  condition and exactly one start condition (two for \<^verbatim>\<open>i2c_readSequential\<close>). With a
  responsive peripheral each of them does return.
\<close>

theorem transactions_framed:
  "(\<forall>s'. i2c_writeAddress a p n s = Some s' \<longrightarrow> framed 1 (issued s s')) \<and>
   (\<forall>s'. i2c_readAdress a p n s = Some s' \<longrightarrow> framed 1 (issued s s')) \<and>
   (\<forall>s'. i2c_readSequential a tx m rx k s = Some s' \<longrightarrow> framed 2 (issued s s')) \<and>
   (responsive s \<longrightarrow>
      i2c_writeAddress a p n s \<noteq> None \<and> i2c_readAdress a p n s \<noteq> None \<and>
      i2c_readSequential a tx m rx k s \<noteq> None)"
proof (intro conjI allI impI)
  fix s' assume "i2c_writeAddress a p n s = Some s'"
  from i2c_writeAddress_Some(1) [OF this] show "framed 1 (issued s s')"
    by (simp add: framed_def issued_def count_list_WriteByte)
next
  fix s' assume "i2c_readAdress a p n s = Some s'"
  from i2c_readAdress_Some(1) [OF this] show "framed 1 (issued s s')"
    by (simp add: framed_def issued_def count_list_ReadByte)
next
  fix s' assume "i2c_readSequential a tx m rx k s = Some s'"
  from i2c_readSequential_Some(1) [OF this] show "framed 2 (issued s s')"
    by (simp add: framed_def issued_def count_list_ReadByte count_list_WriteByte)
next
  assume "responsive s"
  then show "i2c_writeAddress a p n s \<noteq> None" "i2c_readAdress a p n s \<noteq> None"
    "i2c_readSequential a tx m rx k s \<noteq> None"
    by (rule i2c_writeAddress_returns i2c_readAdress_returns i2c_readSequential_returns)+
qed

theorem transactions_framed_witness:
  "(\<exists>s'. i2c_writeAddress 0x50 0x0100 1 (bench 0x20) = Some s' \<and>
      framed 1 (issued (bench 0x20) s')) \<and>
   (\<exists>s'. i2c_readAdress 0x50 0x0100 1 (bench 0x20) = Some s' \<and>
      framed 1 (issued (bench 0x20) s')) \<and>
   (\<exists>s'. i2c_readSequential 0x50 0x0100 1 0x0200 2 (bench 0x20) = Some s' \<and>
      framed 2 (issued (bench 0x20) s'))"
  using transactions_framed [of "0x50" "0x0100" 1 "bench 0x20" "0x0100" 1 "0x0200" 2]
    responsive_bench [of "0x20"]
  by auto

subsection \<open>C5: transfers of no bytes\<close>

text \<open>
  Claim C5. With a count of zero \<^verbatim>\<open>i2c_readAdress\<close> and \<^verbatim>\<open>i2c_writeAddress\<close>
  return after the start condition, the address byte and the stop condition alone: no
  data byte is written or read, and memory is untouched.
\<close>

theorem empty_transfers:
  assumes "responsive s"
  shows "(\<exists>s'. i2c_readAdress a p 0 s = Some s' \<and>
            issued s s' = [Start, WriteByte (address_byte a i2c_ReadCmd), Stop] \<and>
            mem s' = mem s) \<and>
         (\<exists>s'. i2c_writeAddress a p 0 s = Some s' \<and>
            issued s s' = [Start, WriteByte (address_byte a i2c_WriteCmd), Stop] \<and>
            mem s' = mem s)"
proof
  from i2c_readAdress_returns [OF assms, of a p 0] obtain s' where
    e: "i2c_readAdress a p 0 s = Some s'" by auto
  from i2c_readAdress_Some(1,2) [OF e] have
    "issued s s' = [Start, WriteByte (address_byte a i2c_ReadCmd), Stop]" "mem s' = mem s"
    by (auto simp: issued_def region_def)
  with e show "\<exists>s'. i2c_readAdress a p 0 s = Some s' \<and>
            issued s s' = [Start, WriteByte (address_byte a i2c_ReadCmd), Stop] \<and>
            mem s' = mem s" by blast
next
  from i2c_writeAddress_returns [OF assms, of a p 0] obtain s' where
    e: "i2c_writeAddress a p 0 s = Some s'" by auto
  from i2c_writeAddress_Some(1,2) [OF e] have
    "issued s s' = [Start, WriteByte (address_byte a i2c_WriteCmd), Stop]" "mem s' = mem s"
    by (auto simp: issued_def buffer_def)
  with e show "\<exists>s'. i2c_writeAddress a p 0 s = Some s' \<and>
            issued s s' = [Start, WriteByte (address_byte a i2c_WriteCmd), Stop] \<and>
            mem s' = mem s" by blast
qed

theorem empty_transfers_witness:
  "responsive (bench 0x48) \<and>
   (\<exists>s'. i2c_readAdress 0x50 0x0200 0 (bench 0x48) = Some s' \<and>
      issued (bench 0x48) s' = [Start, WriteByte 0xA1, Stop] \<and>
      mem s' = mem (bench 0x48)) \<and>
   (\<exists>s'. i2c_writeAddress 0x50 0x0200 0 (bench 0x48) = Some s' \<and>
      issued (bench 0x48) s' = [Start, WriteByte 0xA0, Stop] \<and>
      mem s' = mem (bench 0x48))"
  using empty_transfers [of "bench 0x48" "0x50" "0x0200"]
  by (simp add: responsive_bench address_byte_write address_byte_read)

subsection \<open>C6: reading a register of the simulated slave\<close>

lemma sim_slave_select:
  "rxbyte (sim_slave test_regs code
     (h @ Start # WriteByte a # WriteByte 0x10 # Start # WriteByte b # [ReadByte x])) = 0xAA"
  "rxbyte (sim_slave test_regs code
     (h @ Start # WriteByte a # WriteByte 0x10 # Start # WriteByte b # [ReadByte x, ReadByte y])) = 0xBB"
  by (simp_all add: sim_slave_def test_regs_def Let_def)

text \<open>
  Claim C6. Against the simulated slave whose register \<open>0x10\<close> holds the bytes
  \<open>0xAA\<close> and \<open>0xBB\<close>, \<^verbatim>\<open>i2c_readSequential\<close> for the address \<open>0x50\<close>, the one
  transmit byte \<open>0x10\<close> and a receive count of two returns with exactly these two bytes,
  in this order, in the caller's receive buffer.
\<close>

theorem register_read_scenario:
  assumes "slave s = sim_slave test_regs code" and "mem s tx = 0x10"
  shows "\<exists>s'. i2c_readSequential 0x50 tx 1 rx 2 s = Some s' \<and>
           buffer (mem s') rx 2 = [0xAA, 0xBB]"
proof -
  from assms(1) have "responsive s"
    by (simp add: responsive_def sim_slave_def Let_def)
  from i2c_readSequential_returns [OF this, of "0x50" tx 1 rx 2] obtain s' where
    e: "i2c_readSequential 0x50 tx 1 rx 2 s = Some s'" by auto
  have tx: "buffer (mem s) tx (Suc 0) = [0x10]"
    using assms(2) by (simp add: buffer_def)
  have a: "acks 2 = [True, False]" by (simp add: numeral_2_eq_2)
  have "mem s' (rx + of_nat 0) = 0xAA"
    by (subst i2c_readSequential_data [OF e]) (simp_all add: tx a assms(1) sim_slave_select)
  moreover have "mem s' (rx + of_nat 1) = 0xBB"
    by (subst i2c_readSequential_data [OF e]) (simp_all add: tx a assms(1) sim_slave_select)
  ultimately have "buffer (mem s') rx 2 = [0xAA, 0xBB]"
    by (simp add: buffer_def upt_rec)
  with e show ?thesis by blast
qed

theorem register_read_scenario_witness:
  "slave (bench 0x40) = sim_slave test_regs 0x40 \<and> mem (bench 0x40) 0x0100 = 0x10 \<and>
   (\<exists>s'. i2c_readSequential 0x50 0x0100 1 0x0200 2 (bench 0x40) = Some s' \<and>
      buffer (mem s') 0x0200 2 = [0xAA, 0xBB])"
  using register_read_scenario [of "bench 0x40" "0x40" "0x0100" "0x0200"]
  by (simp add: bench_def)

subsection \<open>C7: initialising twice\<close>

lemma nat_less_8_cases:
  "n < 8 \<Longrightarrow> n = 0 \<or> n = 1 \<or> n = 2 \<or> n = 3 \<or> n = 4 \<or> n = 5 \<or> n = 6 \<or> n = (7::nat)"
  by arith

lemma prescaler_cleared:
  fixes t :: u8
  defines "t1 \<equiv> (t AND 0xF8) OR ((t AND NOT (push_bit 0 1)) AND 0x03)"
  shows "((t1 AND 0xF8) OR ((t1 AND NOT (push_bit 1 1)) AND 0x03)) AND 0x03 = 0"
  unfolding t1_def
  apply (rule bit_word_eqI)
  subgoal for n
    using nat_less_8_cases [of n]
    by (auto simp add: bit_and_iff bit_or_iff bit_not_iff bit_push_bit_iff bit_1_iff
        numeral_eq_Suc bit_Suc bit_0)
  done

lemma status_latch_keeps_prescaler:
  fixes c t :: u8
  shows "((c AND 0xF8) OR (t AND 0x03)) AND 0x03 = t AND 0x03"
  apply (rule bit_word_eqI)
  subgoal for n
    using nat_less_8_cases [of n]
    by (auto simp add: bit_and_iff bit_or_iff numeral_eq_Suc bit_Suc bit_0)
  done

lemma hw_tick_config:
  "twsr (hw_tick s) AND 0x03 = twsr s AND 0x03" "twbr (hw_tick s) = twbr s"
  by (simp_all add: hw_tick_def complete_def Let_def status_latch_keeps_prescaler
      split: option.splits)

lemma write_TWCR_config:
  "twsr (write_TWCR v s) = twsr s" "twbr (write_TWCR v s) = twbr s"
  by (simp_all add: write_TWCR_def begin_op_def Let_def split: bus_phase.splits)

lemma write_TWCR_enable:
  "bit v TWEN \<Longrightarrow> bit (twcr (write_TWCR v s)) TWEN"
  by (simp add: write_TWCR_def begin_op_def Let_def bit_simps TWEN_def TWINT_def TWSTO_def
      split: bus_phase.splits)

lemma bitSet_TWEN_config:
  "config (bitSet TWCR TWEN s) = (twsr s AND 0x03, twbr s, True)"
proof -
  have b: "bit (twcr (hw_tick s) OR push_bit TWEN 1 :: u8) TWEN"
    by (simp add: bit_or_iff bit_push_bit_iff TWEN_def)
  have e: "bitSet TWCR TWEN s = write_TWCR (twcr (hw_tick s) OR push_bit TWEN 1) (hw_tick s)"
    by (simp only: bitSet_def reg_read.simps reg_write.simps Let_def prod.case)
  show ?thesis
    unfolding e config_def
    by (simp only: write_TWCR_config hw_tick_config write_TWCR_enable [OF b])
qed

lemma twsr_bitClear:
  "twsr (bitClear TWSR b s) =
     (twsr s AND 0xF8) OR ((twsr s AND NOT (push_bit b 1)) AND 0x03)"
  unfolding bitClear_def by simp

lemma config_i2c_Init: "config (i2c_Init s) = (0, 72, True)"
proof -
  let ?s1 = "bitClear TWSR TWPS0 s"
  let ?s2 = "bitClear TWSR TWPS1 ?s1"
  let ?s3 = "reg_write TWBR 72 ?s2"
  have i: "i2c_Init s = bitSet TWCR TWEN ?s3"
    by (simp only: i2c_Init_def Let_def)
  have 1: "twsr ?s1 = (twsr s AND 0xF8) OR ((twsr s AND NOT (push_bit 0 1)) AND 0x03)"
    by (simp only: twsr_bitClear TWPS0_def)
  have 2: "twsr ?s2 = (twsr ?s1 AND 0xF8) OR ((twsr ?s1 AND NOT (push_bit 1 1)) AND 0x03)"
    by (simp only: twsr_bitClear TWPS1_def)
  have p: "twsr ?s2 AND 0x03 = 0"
    unfolding 2 1 by (rule prescaler_cleared)
  have 3: "twsr ?s3 = twsr ?s2" "twbr ?s3 = 72" by simp_all
  show ?thesis
    unfolding i bitSet_TWEN_config 3 p ..
qed

text \<open>
  Claim C7. After two calls of \<^verbatim>\<open>i2c_Init\<close> the prescaler bits, the rate divisor and
  the enable bit are what they are after one call: prescaler bits clear, divisor 72,
  interface enabled, from whatever state the first call starts.
\<close>

theorem i2c_Init_idempotent:
  "config (i2c_Init (i2c_Init s)) = config (i2c_Init s) \<and>
   config (i2c_Init s) = (0, 72, True)"
  by (simp add: config_i2c_Init)

subsection \<open>C8: no status code is ever looked at\<close>

lemma sbs_bench: "same_but_status (bench c) (bench d)"
  by (simp add: same_but_status_def bench_def sim_slave_def Let_def)

lemma sbs_results:
  assumes "rel_option same_but_status x y" and "x \<noteq> None" and "same_but_status s t"
  shows "\<exists>s' t'. x = Some s' \<and> y = Some t' \<and> same_but_status s' t' \<and>
           issued t t' = issued s s' \<and> mem t' = mem s'"
  using assms(1)
proof (cases rule: option.rel_cases)
  case None
  with assms(2) show ?thesis by simp
next
  case (Some s' t')
  from Some(3) assms(3) have "issued t t' = issued s s'" "mem t' = mem s'"
    by (simp_all add: issued_def sbs_fields)
  with Some show ?thesis by blast
qed

text \<open>
  Claim C8. Let two runs differ only in the status codes that the peripheral reports (an
  acknowledged address in one, a refused one in the other, say). Then every operation of
  the driver does the same in both: the three transactions, which return when the
  peripheral is responsive, put the same events on the bus and leave the same memory,
  and the two final states again differ in the status codes only; the same holds for the
  primitives and for \<^verbatim>\<open>i2c_Init\<close>. No status code reaches a decision of the driver, and
  no operation has an error result: the only results are a state, or a state and a byte.
\<close>

theorem status_never_inspected:
  assumes "same_but_status s t" and "responsive s"
  shows "(\<exists>s' t'. i2c_writeAddress a p n s = Some s' \<and> i2c_writeAddress a p n t = Some t' \<and>
            same_but_status s' t' \<and> issued t t' = issued s s' \<and> mem t' = mem s') \<and>
         (\<exists>s' t'. i2c_readAdress a p n s = Some s' \<and> i2c_readAdress a p n t = Some t' \<and>
            same_but_status s' t' \<and> issued t t' = issued s s' \<and> mem t' = mem s') \<and>
         (\<exists>s' t'. i2c_readSequential a tx m rx k s = Some s' \<and>
            i2c_readSequential a tx m rx k t = Some t' \<and>
            same_but_status s' t' \<and> issued t t' = issued s s' \<and> mem t' = mem s') \<and>
         rel_option same_but_status (i2c_Start s) (i2c_Start t) \<and>
         rel_option same_but_status (i2c_Write d s) (i2c_Write d t) \<and>
         rel_option (rel_prod (=) same_but_status) (i2c_Read ack s) (i2c_Read ack t) \<and>
         same_but_status (i2c_Stop s) (i2c_Stop t) \<and>
         same_but_status (i2c_Init s) (i2c_Init t)"
  by (intro conjI
      sbs_results [OF sbs_i2c_writeAddress [OF assms(1)] i2c_writeAddress_returns [OF assms(2)] assms(1)]
      sbs_results [OF sbs_i2c_readAdress [OF assms(1)] i2c_readAdress_returns [OF assms(2)] assms(1)]
      sbs_results [OF sbs_i2c_readSequential [OF assms(1)] i2c_readSequential_returns [OF assms(2)] assms(1)]
      sbs_i2c_Start sbs_i2c_Write sbs_i2c_Read sbs_i2c_Stop sbs_i2c_Init assms(1))

theorem status_never_inspected_witness:
  "same_but_status (bench 0x18) (bench 0x20) \<and> responsive (bench 0x18) \<and>
   (\<exists>s' t'. i2c_writeAddress 0x50 0x0100 1 (bench 0x18) = Some s' \<and>
      i2c_writeAddress 0x50 0x0100 1 (bench 0x20) = Some t' \<and>
      same_but_status s' t' \<and> issued (bench 0x20) t' = issued (bench 0x18) s' \<and>
      mem t' = mem s')"
  using status_never_inspected [OF sbs_bench responsive_bench, of "0x50" "0x0100" 1 "0x18" "0x20"]
    sbs_bench [of "0x18" "0x20"] responsive_bench [of "0x18"]
  by blast

subsection \<open>C9: what happens to the caller's memory\<close>

lemma buffer_eq_outside:
  assumes "\<forall>x. x \<notin> R \<longrightarrow> m' x = m x" and "region p k \<inter> R = {}"
  shows "buffer m' p k = buffer m p k"
proof -
  have "m' (p + of_nat i) = m (p + of_nat i)" if "i < k" for i
  proof -
    from that have "p + of_nat i \<in> region p k" by (auto simp: region_def)
    with assms(2) have "p + of_nat i \<notin> R" by blast
    with assms(1) show ?thesis by blast
  qed
  then show ?thesis by (simp add: buffer_def)
qed

text \<open>
  Claim C9. \<^verbatim>\<open>i2c_writeAddress\<close> leaves the whole memory as it was.
  \<^verbatim>\<open>i2c_readAdress\<close> and \<^verbatim>\<open>i2c_readSequential\<close> change memory only at the first
  \<open>count\<close> addresses of the receive buffer. The write phase of
  \<^verbatim>\<open>i2c_readSequential\<close> transmits the transmit buffer as it was at the call, and a
  transmit buffer that does not overlap the receive buffer is unchanged at the end.
\<close>

theorem memory_frame:
  assumes "responsive s"
  shows "(\<exists>s'. i2c_writeAddress a p n s = Some s' \<and> mem s' = mem s) \<and>
         (\<exists>s'. i2c_readAdress a p n s = Some s' \<and>
            (\<forall>x. x \<notin> region p (unat n) \<longrightarrow> mem s' x = mem s x)) \<and>
         (\<exists>s'. i2c_readSequential a tx m rx k s = Some s' \<and>
            (\<forall>x. x \<notin> region rx (unat k) \<longrightarrow> mem s' x = mem s x) \<and>
            take (unat m) (drop 2 (issued s s')) =
              map WriteByte (buffer (mem s) tx (unat m)) \<and>
            (region tx (unat m) \<inter> region rx (unat k) = {} \<longrightarrow>
               buffer (mem s') tx (unat m) = buffer (mem s) tx (unat m)))"
proof (intro conjI)
  from i2c_writeAddress_returns [OF assms, of a p n] obtain s' where
    e: "i2c_writeAddress a p n s = Some s'" by auto
  with i2c_writeAddress_Some(2) [OF e]
  show "\<exists>s'. i2c_writeAddress a p n s = Some s' \<and> mem s' = mem s" by blast
next
  from i2c_readAdress_returns [OF assms, of a p n] obtain s' where
    e: "i2c_readAdress a p n s = Some s'" by auto
  with i2c_readAdress_Some(2) [OF e]
  show "\<exists>s'. i2c_readAdress a p n s = Some s' \<and>
            (\<forall>x. x \<notin> region p (unat n) \<longrightarrow> mem s' x = mem s x)" by blast
next
  from i2c_readSequential_returns [OF assms, of a tx m rx k] obtain s' where
    e: "i2c_readSequential a tx m rx k s = Some s'" by auto
  note f = i2c_readSequential_Some(2) [OF e]
  have t: "take (unat m) (drop 2 (issued s s')) = map WriteByte (buffer (mem s) tx (unat m))"
    using i2c_readSequential_Some(1) [OF e] by (simp add: issued_def buffer_def)
  have b: "region tx (unat m) \<inter> region rx (unat k) = {} \<longrightarrow>
      buffer (mem s') tx (unat m) = buffer (mem s) tx (unat m)"
    using buffer_eq_outside [OF f] by blast
  from e f t b
  show "\<exists>s'. i2c_readSequential a tx m rx k s = Some s' \<and>
            (\<forall>x. x \<notin> region rx (unat k) \<longrightarrow> mem s' x = mem s x) \<and>
            take (unat m) (drop 2 (issued s s')) =
              map WriteByte (buffer (mem s) tx (unat m)) \<and>
            (region tx (unat m) \<inter> region rx (unat k) = {} \<longrightarrow>
               buffer (mem s') tx (unat m) = buffer (mem s) tx (unat m))" by blast
qed

lemma regions_bench: "region 0x0100 (unat (1 :: u16)) \<inter> region 0x0200 (unat (2 :: u16)) = {}"
proof -
  have l: "{..<(2::nat)} = {0, 1}" by auto
  have a: "region 0x0100 (unat (1 :: u16)) = {0x0100}"
    by (auto simp add: region_def)
  have b: "region 0x0200 (unat (2 :: u16)) = {0x0200, 0x0201}"
    by (auto simp add: region_def l)
  show ?thesis unfolding a b by simp
qed

theorem memory_frame_witness:
  "responsive (bench 0x50) \<and>
   region 0x0100 (unat (1 :: u16)) \<inter> region 0x0200 (unat (2 :: u16)) = {} \<and>
   (\<exists>s'. i2c_readSequential 0x50 0x0100 1 0x0200 2 (bench 0x50) = Some s' \<and>
      (\<forall>x. x \<notin> region 0x0200 (unat (2 :: u16)) \<longrightarrow> mem s' x = mem (bench 0x50) x) \<and>
      buffer (mem s') 0x0100 (unat (1 :: u16)) =
        buffer (mem (bench 0x50)) 0x0100 (unat (1 :: u16)))"
  using memory_frame [OF responsive_bench, of "0x50" "0x0100" 1 "0x50" "0x0100" 1 "0x0200" 2]
    regions_bench responsive_bench [of "0x50"]
  by blast

subsection \<open>C10: addresses above 127\<close>

lemma nth_after_data:
  "length ds = j \<Longrightarrow> (x # y # map WriteByte ds @ z # w # rest) ! (j + 3) = w"
  by (simp add: nth_append nth_Cons')

text \<open>
  Claim C10. For every 8-bit address, also one from 128 to 255, the address byte on the
  bus is \<open>(a * 2) mod 256\<close> with the direction bit in its lowest place: the highest bit
  of the address is lost in the cut to eight bits, and each transaction does for \<open>a\<close>
  exactly what it does for \<open>a mod 128\<close>. With a responsive peripheral each transaction
  returns, and the byte that follows each start condition on the bus is this address
  byte; whenever a transaction returns at all, it is that byte.
\<close>

theorem address_truncated:
  "unat (address_byte a i2c_WriteCmd) = (unat a * 2) mod 256 OR 0 \<and>
   unat (address_byte a i2c_ReadCmd) = (unat a * 2) mod 256 OR 1 \<and>
   address_byte a cmd = address_byte (a mod 128) cmd \<and>
   i2c_writeAddress a p n s = i2c_writeAddress (a mod 128) p n s \<and>
   i2c_readAdress a p n s = i2c_readAdress (a mod 128) p n s \<and>
   i2c_readSequential a tx m rx k s = i2c_readSequential (a mod 128) tx m rx k s \<and>
   (\<forall>s'. i2c_writeAddress a p n s = Some s' \<longrightarrow>
      issued s s' ! 1 = WriteByte (address_byte a i2c_WriteCmd)) \<and>
   (\<forall>s'. i2c_readAdress a p n s = Some s' \<longrightarrow>
      issued s s' ! 1 = WriteByte (address_byte a i2c_ReadCmd)) \<and>
   (responsive s \<longrightarrow>
      (\<exists>s'. i2c_writeAddress a p n s = Some s' \<and>
         issued s s' ! 1 = WriteByte (address_byte a i2c_WriteCmd)) \<and>
      (\<exists>s'. i2c_readAdress a p n s = Some s' \<and>
         issued s s' ! 1 = WriteByte (address_byte a i2c_ReadCmd)) \<and>
      (\<exists>s'. i2c_readSequential a tx m rx k s = Some s' \<and>
         issued s s' ! 1 = WriteByte (address_byte a i2c_WriteCmd) \<and>
         issued s s' ! (unat m + 3) = WriteByte (address_byte a i2c_ReadCmd)))"
proof -
  have w: "issued s s' ! 1 = WriteByte (address_byte a i2c_WriteCmd)"
    if "i2c_writeAddress a p n s = Some s'" for s'
    using i2c_writeAddress_Some(1) [OF that] by (simp add: issued_def)
  have r: "issued s s' ! 1 = WriteByte (address_byte a i2c_ReadCmd)"
    if "i2c_readAdress a p n s = Some s'" for s'
    using i2c_readAdress_Some(1) [OF that] by (simp add: issued_def)
  have q: "issued s s' ! 1 = WriteByte (address_byte a i2c_WriteCmd) \<and>
      issued s s' ! (unat m + 3) = WriteByte (address_byte a i2c_ReadCmd)"
    if "i2c_readSequential a tx m rx k s = Some s'" for s'
  proof -
    have l: "length (buffer (mem s) tx (unat m)) = unat m" by (simp add: buffer_def)
    from i2c_readSequential_Some(1) [OF that] have
      i: "issued s s' = Start # WriteByte (address_byte a i2c_WriteCmd) #
           map WriteByte (buffer (mem s) tx (unat m)) @
           Start # WriteByte (address_byte a i2c_ReadCmd) #
           map ReadByte (acks (unat k)) @ [Stop]"
      by (simp add: issued_def)
    have 1: "issued s s' ! 1 = WriteByte (address_byte a i2c_WriteCmd)"
      unfolding i by simp
    have 2: "issued s s' ! (unat m + 3) = WriteByte (address_byte a i2c_ReadCmd)"
      unfolding i by (rule nth_after_data [OF l])
    from 1 2 show ?thesis ..
  qed
  have total: "(\<exists>s'. i2c_writeAddress a p n s = Some s' \<and>
         issued s s' ! 1 = WriteByte (address_byte a i2c_WriteCmd)) \<and>
      (\<exists>s'. i2c_readAdress a p n s = Some s' \<and>
         issued s s' ! 1 = WriteByte (address_byte a i2c_ReadCmd)) \<and>
      (\<exists>s'. i2c_readSequential a tx m rx k s = Some s' \<and>
         issued s s' ! 1 = WriteByte (address_byte a i2c_WriteCmd) \<and>
         issued s s' ! (unat m + 3) = WriteByte (address_byte a i2c_ReadCmd))"
    if resp: "responsive s"
  proof (intro conjI)
    from i2c_writeAddress_returns [OF resp, of a p n] obtain s' where
      e: "i2c_writeAddress a p n s = Some s'" by auto
    with w [OF e] show "\<exists>s'. i2c_writeAddress a p n s = Some s' \<and>
         issued s s' ! 1 = WriteByte (address_byte a i2c_WriteCmd)" by blast
  next
    from i2c_readAdress_returns [OF resp, of a p n] obtain s' where
      e: "i2c_readAdress a p n s = Some s'" by auto
    with r [OF e] show "\<exists>s'. i2c_readAdress a p n s = Some s' \<and>
         issued s s' ! 1 = WriteByte (address_byte a i2c_ReadCmd)" by blast
  next
    from i2c_readSequential_returns [OF resp, of a tx m rx k] obtain s' where
      e: "i2c_readSequential a tx m rx k s = Some s'" by auto
    with q [OF e] show "\<exists>s'. i2c_readSequential a tx m rx k s = Some s' \<and>
         issued s s' ! 1 = WriteByte (address_byte a i2c_WriteCmd) \<and>
         issued s s' ! (unat m + 3) = WriteByte (address_byte a i2c_ReadCmd)" by blast
  qed
  have 1: "unat (address_byte a i2c_WriteCmd) = (unat a * 2) mod 256 OR 0"
    by (simp add: unat_address_byte i2c_WriteCmd_def)
  have 2: "unat (address_byte a i2c_ReadCmd) = (unat a * 2) mod 256 OR 1"
    by (simp add: unat_address_byte i2c_ReadCmd_def)
  have 3: "address_byte a cmd = address_byte (a mod 128) cmd"
    by (simp only: address_byte_mod_128)
  have 4: "i2c_writeAddress a p n s = i2c_writeAddress (a mod 128) p n s"
    by (simp only: i2c_writeAddress_def address_byte_mod_128)
  have 5: "i2c_readAdress a p n s = i2c_readAdress (a mod 128) p n s"
    by (simp only: i2c_readAdress_def address_byte_mod_128)
  have 6: "i2c_readSequential a tx m rx k s = i2c_readSequential (a mod 128) tx m rx k s"
    by (simp only: i2c_readSequential_def address_byte_mod_128)
  from 1 2 3 4 5 6 w r total show ?thesis by blast
qed

theorem address_truncated_witness:
  "responsive (bench 0x40) \<and>
   (\<exists>s'. i2c_writeAddress 0xD0 0x0100 1 (bench 0x40) = Some s' \<and>
      i2c_writeAddress 0x50 0x0100 1 (bench 0x40) = Some s' \<and>
      issued (bench 0x40) s' ! 1 = WriteByte 0xA0) \<and>
   (\<exists>s'. i2c_readAdress 0xD0 0x0100 1 (bench 0x40) = Some s' \<and>
      i2c_readAdress 0x50 0x0100 1 (bench 0x40) = Some s' \<and>
      issued (bench 0x40) s' ! 1 = WriteByte 0xA1) \<and>
   (\<exists>s'. i2c_readSequential 0xD0 0x0100 1 0x0200 2 (bench 0x40) = Some s' \<and>
      i2c_readSequential 0x50 0x0100 1 0x0200 2 (bench 0x40) = Some s' \<and>
      issued (bench 0x40) s' ! 1 = WriteByte 0xA0 \<and>
      issued (bench 0x40) s' ! 4 = WriteByte 0xA1)"
proof -
  have m: "(0xD0 :: u8) mod 128 = 0x50" by simp
  have bw: "address_byte 0xD0 i2c_WriteCmd = 0xA0"
    by (simp add: address_byte_write)
  have br: "address_byte 0xD0 i2c_ReadCmd = 0xA1"
    by (simp add: address_byte_read)
  have u: "unat (1 :: u16) + 3 = 4" by simp
  note t = address_truncated
    [of "0xD0" i2c_ReadCmd "0x0100" 1 "bench 0x40" "0x0100" 1 "0x0200" 2, unfolded m bw br u]
  from t responsive_bench [of "0x40"] show ?thesis
    by (metis (no_types, lifting))
qed

end
